theory Spec2Isabelle
  imports Complex_Main "HOL-Library.Multiset"
begin

section \<open>Site configuration\<close>

text \<open>
  \<^verbatim>\<open>src/consts.ts\<close> exports the object \<^verbatim>\<open>site\<close>. The listing pages read its page
  sizes only; the remaining entries (title, favicon, author, ...) are display strings.
\<close>

record site_config =
  recentBlogSize :: nat
  archivePageSize :: nat
  postPageSize :: nat
  feedPageSize :: nat

definition site :: site_config where
  "site = \<lparr>recentBlogSize = 5, archivePageSize = 25, postPageSize = 10, feedPageSize = 20\<rparr>"

section \<open>Blog posts\<close>

text \<open>
  A post of the \<^verbatim>\<open>blog\<close> collection, with the frontmatter entries of the files under
  \<^verbatim>\<open>src/content/blog\<close> (title, description, date, category, tags) and the sticky flag
  of the data model. A date is a point on the time line (JavaScript's \<^verbatim>\<open>Date\<close> value).
\<close>

record post =
  title :: string
  description :: string
  date :: int
  category :: string
  tags :: "string list"
  sticky :: bool

subsection \<open>Ordering: sticky posts first, then by date\<close>

text \<open>
  The direction in which dates are listed. The specification says "sort by sticky flag then
  date" and leaves the direction open, so the ordering below takes it as a parameter and
  every result holds for both directions.
\<close>

datatype date_order = OldestFirst | NewestFirst

definition date_le :: "date_order \<Rightarrow> int \<Rightarrow> int \<Rightarrow> bool" where
  "date_le d x y = (case d of OldestFirst \<Rightarrow> x \<le> y | NewestFirst \<Rightarrow> y \<le> x)"

text \<open>
  \<open>precedes d a b\<close>: post \<open>a\<close> may stand before post \<open>b\<close>. The sticky flag decides first;
  between two posts with the same flag the date decides.
\<close>

definition precedes :: "date_order \<Rightarrow> post \<Rightarrow> post \<Rightarrow> bool" where
  "precedes d a b = (if sticky a = sticky b then date_le d (date a) (date b) else sticky a)"

fun insert_post :: "date_order \<Rightarrow> post \<Rightarrow> post list \<Rightarrow> post list" where
  "insert_post d p [] = [p]"
| "insert_post d p (q # qs) = (if precedes d p q then p # q # qs else q # insert_post d p qs)"

text \<open>
  Modelled from the spec: \<^verbatim>\<open>src/utils/orderBySticky\<close> is imported by both listing pages
  and is not among the sources. The specification describes it as a pure function over the
  array of posts that sorts "by sticky flag then date", a sticky post being "pinned to appear
  first regardless of date ordering". The model is a stable sort with that comparison; it
  builds a new list and leaves its argument alone.
\<close>

fun orderBySticky :: "date_order \<Rightarrow> post list \<Rightarrow> post list" where
  "orderBySticky d [] = []"
| "orderBySticky d (p # ps) = insert_post d p (orderBySticky d ps)"

section \<open>Library functions the pages call\<close>

subsection \<open>lodash: \<^verbatim>\<open>_.divide\<close> and \<^verbatim>\<open>_.ceil\<close>\<close>

text \<open>
  \<^verbatim>\<open>_.divide(a, b)\<close> is the quotient \<^verbatim>\<open>a / b\<close> of two numbers and \<^verbatim>\<open>_.ceil(x)\<close> (precision 0)
  is \<^verbatim>\<open>Math.ceil(x)\<close>. The arguments here are an array length and a page size, for which
  the double-precision quotient lies on the same side of every integer as the exact one,
  so the quotient is taken in the reals.
\<close>

definition lodash_divide :: "nat \<Rightarrow> nat \<Rightarrow> real" where
  "lodash_divide a b = real a / real b"

definition lodash_ceil :: "real \<Rightarrow> nat" where
  "lodash_ceil x = nat \<lceil>x\<rceil>"

subsection \<open>JavaScript: \<^verbatim>\<open>String(n)\<close> and \<^verbatim>\<open>slice\<close>\<close>

text \<open>\<^verbatim>\<open>String(n)\<close> of a natural number is its decimal numeral.\<close>

definition digit :: "nat \<Rightarrow> char" where
  "digit n = ''0123456789'' ! n"

fun string_of_nat :: "nat \<Rightarrow> string" where
  "string_of_nat n =
     (if n < 10 then [digit n] else string_of_nat (n div 10) @ [digit (n mod 10)])"

declare string_of_nat.simps [simp del]

text \<open>\<^verbatim>\<open>xs.slice(start, end)\<close> copies the elements at indices \<open>start \<le> i < end\<close>.\<close>

definition slice :: "'a list \<Rightarrow> nat \<Rightarrow> nat \<Rightarrow> 'a list" where
  "slice xs start end_ix = take (end_ix - start) (drop start xs)"

subsection \<open>Astro: the \<^verbatim>\<open>paginate\<close> function handed to \<^verbatim>\<open>getStaticPaths\<close>\<close>

text \<open>
  Failures of a build, as values: \<open>ToolingFailure\<close> stands for whatever the content loader
  or the framework raises (a file with missing frontmatter, for example), and
  \<open>PageNumberParamNotFound\<close> is the error \<^verbatim>\<open>paginate\<close> raises for a route without a
  \<^verbatim>\<open>page\<close> parameter.
\<close>

datatype error = ToolingFailure string | PageNumberParamNotFound

text \<open>
  The route of a page file: its path before the parameter and its parameter names.
  \<^verbatim>\<open>src/pages/blog/[page].astro\<close> is the route \<^verbatim>\<open>/blog/[page]\<close>.
\<close>

record route =
  route_path :: string
  route_params :: "string list"

definition blog_route :: route where
  "blog_route = \<lparr>route_path = ''/blog'', route_params = [''page'']\<rparr>"

definition generate :: "route \<Rightarrow> string option \<Rightarrow> string" where
  "generate r pg = (case pg of None \<Rightarrow> route_path r | Some s \<Rightarrow> route_path r @ ''/'' @ s)"

text \<open>
  The \<^verbatim>\<open>url\<close> object of a page; an entry that is \<^verbatim>\<open>undefined\<close> is \<open>None\<close>. The home page
  builds such an object by hand, without \<^verbatim>\<open>current\<close>.
\<close>

record page_url =
  current_url :: "string option"
  prev_url :: "string option"
  next_url :: "string option"

text \<open>
  Astro's \<^verbatim>\<open>Page\<close>: \<open>start_index\<close> and \<open>end_index\<close> are its \<^verbatim>\<open>start\<close> and \<^verbatim>\<open>end\<close> (the
  index of the first and of the last item of the page; \<^verbatim>\<open>end\<close> is \<open>-1\<close> on an empty
  page), \<open>page_size\<close> its \<^verbatim>\<open>size\<close>.
\<close>

record page =
  data :: "post list"
  start_index :: nat
  end_index :: int
  page_size :: nat
  total :: nat
  currentPage :: nat
  lastPage :: nat
  url :: page_url

record static_path =
  params_page :: "string option"
  props_page :: page

text \<open>
  The body of \<^verbatim>\<open>paginate\<close> for one page, \<open>num\<close> counting from 0:
  \<^verbatim>\<open>pageNum = num + 1\<close>, \<^verbatim>\<open>start = (pageNum - 1) * pageSize\<close>,
  \<^verbatim>\<open>end = Math.min(start + pageSize, data.length)\<close>, \<^verbatim>\<open>data: data.slice(start, end)\<close>,
  \<^verbatim>\<open>end: end - 1\<close>; \<^verbatim>\<open>next\<close> is undefined on the last page and \<^verbatim>\<open>prev\<close> on the first.
\<close>

definition paginate_page ::
  "route \<Rightarrow> bool \<Rightarrow> post list \<Rightarrow> nat \<Rightarrow> nat \<Rightarrow> nat \<Rightarrow> static_path" where
  "paginate_page r includesFirstPageNumber xs pageSize lastPg num =
     (let pageNum = num + 1;
          start = (pageNum - 1) * pageSize;
          end_ix = min (start + pageSize) (length xs);
          param = (\<lambda>n. if includesFirstPageNumber \<or> n > 1 then Some (string_of_nat n) else None)
      in \<lparr>params_page = param pageNum,
          props_page =
            \<lparr>data = slice xs start end_ix,
             start_index = start,
             end_index = int end_ix - 1,
             page_size = pageSize,
             total = length xs,
             currentPage = pageNum,
             lastPage = lastPg,
             url = \<lparr>current_url = Some (generate r (param pageNum)),
                    prev_url = (if pageNum = 1 then None
                                else Some (generate r (param (pageNum - 1)))),
                    next_url = (if pageNum = lastPg then None
                                else Some (generate r (Some (string_of_nat (pageNum + 1)))))\<rparr>\<rparr>\<rparr>)"

text \<open>
  \<^verbatim>\<open>paginate(data, {pageSize})\<close>: the page size defaults to 10 when it is not given (or 0);
  the route must have a \<^verbatim>\<open>page\<close> parameter (\<^verbatim>\<open>[page]\<close>, or the rest parameter
  \<^verbatim>\<open>[...page]\<close>, whose first page has no number); the number of pages is
  \<^verbatim>\<open>Math.max(1, Math.ceil(data.length / pageSize))\<close>, so an empty array still gets a page.
\<close>

definition paginate :: "route \<Rightarrow> post list \<Rightarrow> nat \<Rightarrow> error + static_path list" where
  "paginate r xs pageSize_opt =
     (let pageSize = (if pageSize_opt = 0 then 10 else pageSize_opt);
          lastPg = max 1 (nat \<lceil>real (length xs) / real pageSize\<rceil>);
          result = (\<lambda>includesFirstPageNumber.
            map (paginate_page r includesFirstPageNumber xs pageSize lastPg) [0..<lastPg])
      in if ''...page'' \<in> set (route_params r) then Inr (result False)
         else if ''page'' \<in> set (route_params r) then Inr (result True)
         else Inl PageNumberParamNotFound)"

section \<open>The blog listing pages: \<^verbatim>\<open>src/pages/blog/[page].astro\<close>\<close>

text \<open>
  \<^verbatim>\<open>getCollectionByName\<close> (\<^verbatim>\<open>src/utils/getCollectionByName\<close>) reads the content files; what
  it hands back is the input of both pages. \<open>loaded\<close> is the outcome of
  \<^verbatim>\<open>await getCollectionByName("blog")\<close>: the posts, or the failure it raised, which the
  \<^verbatim>\<open>await\<close> throws on. \<open>d\<close> is the direction of the date order of \<open>orderBySticky\<close>.
  The function receives \<^verbatim>\<open>paginate\<close> from Astro, bound to the route of the page file.
\<close>

definition getStaticPaths :: "date_order \<Rightarrow> error + post list \<Rightarrow> error + static_path list" where
  "getStaticPaths d loaded =
     (case loaded of
        Inl e \<Rightarrow> Inl e
      | Inr posts \<Rightarrow>
          (let sortedPosts = orderBySticky d posts
           in paginate blog_route sortedPosts (postPageSize site)))"

text \<open>
  What a listing page shows: the posts, one \<^verbatim>\<open>PostView\<close> each, and the properties of the
  \<^verbatim>\<open>Pagination\<close> component when it is rendered.
\<close>

record pagination_props =
  pg_currentPage :: nat
  pg_totalPage :: nat
  pg_url :: page_url

record listing =
  shown :: "post list"
  pagination :: "pagination_props option"

text \<open>The template of \<^verbatim>\<open>[page].astro\<close>, for the \<^verbatim>\<open>page\<close> property of one static path.\<close>

definition blog_template :: "page \<Rightarrow> listing" where
  "blog_template pg =
     \<lparr>shown = data pg,
      pagination = Some \<lparr>pg_currentPage = currentPage pg, pg_totalPage = lastPage pg,
                          pg_url = url pg\<rparr>\<rparr>"

section \<open>The home page: \<^verbatim>\<open>src/pages/index.astro\<close>\<close>

subsection \<open>Arrays as objects\<close>

text \<open>
  The script of the home page calls \<^verbatim>\<open>splice\<close>, which changes the array it is called on.
  Arrays are therefore objects in a heap: an address is a position in the list of all
  arrays allocated so far, and a variable of the script holds an address.
\<close>

type_synonym addr = nat
type_synonym heap = "post list list"

definition alloc :: "heap \<Rightarrow> post list \<Rightarrow> addr \<times> heap" where
  "alloc h xs = (length h, h @ [xs])"

text \<open>
  \<^verbatim>\<open>a.splice(start, deleteCount)\<close> removes \<open>deleteCount\<close> elements of \<open>a\<close> from index
  \<open>start\<close> on, in place, and returns them in a new array.
\<close>

definition splice :: "heap \<Rightarrow> addr \<Rightarrow> nat \<Rightarrow> nat \<Rightarrow> addr \<times> heap" where
  "splice h a start deleteCount =
     (let xs = h ! a;
          removed = take deleteCount (drop start xs);
          rest = take start xs @ drop (start + deleteCount) xs
      in alloc (h[a := rest]) removed)"

text \<open>
  Modelled from the spec: the call \<^verbatim>\<open>orderBySticky(blogs)\<close> on an array of the heap.
  \<^verbatim>\<open>src/utils/orderBySticky\<close> is not among the sources; the specification calls the sort
  utility a pure, stateless function, so the call allocates the sorted array and changes no
  array that exists.
\<close>

definition orderBySticky_call :: "date_order \<Rightarrow> heap \<Rightarrow> addr \<Rightarrow> addr \<times> heap" where
  "orderBySticky_call d h a = alloc h (orderBySticky d (h ! a))"

subsection \<open>The frontmatter script and the template\<close>

text \<open>The variables of the script when it ends; the arrays are held by address.\<close>

record index_vars =
  iv_currentPage :: nat
  iv_blogs :: addr
  iv_totalPage :: nat
  iv_sortedPosts :: addr

text \<open>
  The truncation step:
  \<^verbatim>\<open>if (sortedPosts.length > site.postPageSize) {
    sortedPosts = sortedPosts.splice(0, site.postPageSize); }\<close>
\<close>

definition truncate_step :: "heap \<Rightarrow> addr \<Rightarrow> addr \<times> heap" where
  "truncate_step h sortedPosts =
     (if length (h ! sortedPosts) > postPageSize site
      then splice h sortedPosts 0 (postPageSize site)
      else (sortedPosts, h))"

text \<open>The script, started in heap \<open>h\<close> with the loaded posts at address \<open>blogs\<close>.\<close>

definition index_script :: "date_order \<Rightarrow> heap \<Rightarrow> addr \<Rightarrow> index_vars \<times> heap" where
  "index_script d h blogs =
     (let currentPage = 1;
          totalPage = lodash_ceil (lodash_divide (length (h ! blogs)) (postPageSize site));
          (sortedPosts, h1) = orderBySticky_call d h blogs;
          (sortedPosts', h2) = truncate_step h1 sortedPosts
      in (\<lparr>iv_currentPage = currentPage, iv_blogs = blogs, iv_totalPage = totalPage,
           iv_sortedPosts = sortedPosts'\<rparr>, h2))"

definition index_template :: "heap \<Rightarrow> index_vars \<Rightarrow> listing" where
  "index_template h v =
     \<lparr>shown = h ! iv_sortedPosts v,
      pagination =
        (if iv_totalPage v > 1
         then Some \<lparr>pg_currentPage = iv_currentPage v, pg_totalPage = iv_totalPage v,
                    pg_url = \<lparr>current_url = None, prev_url = Some [],
                              next_url = Some ''/blog/2''\<rparr>\<rparr>
         else None)\<rparr>"

text \<open>
  The script from the outcome of \<^verbatim>\<open>await getCollectionByName("blog")\<close>: a failure of the
  loader ends it; otherwise the loaded array is the only one in the heap when it starts.
\<close>

definition index_frontmatter ::
  "date_order \<Rightarrow> error + post list \<Rightarrow> error + index_vars \<times> heap" where
  "index_frontmatter d loaded =
     (case loaded of
        Inl e \<Rightarrow> Inl e
      | Inr posts \<Rightarrow> (let (blogs, h) = alloc [] posts in Inr (index_script d h blogs)))"

definition index_page :: "date_order \<Rightarrow> error + post list \<Rightarrow> error + listing" where
  "index_page d loaded =
     (case index_frontmatter d loaded of
        Inl e \<Rightarrow> Inl e
      | Inr (v, h) \<Rightarrow> Inr (index_template h v))"

section \<open>Sample collections\<close>

text \<open>
  Posts for evaluating the pages on concrete collections: post \<open>n\<close> is dated day \<open>n\<close>, and
  post 2 is the sticky one.
\<close>

definition sample_post :: "nat \<Rightarrow> post" where
  "sample_post n =
     \<lparr>title = ''post '' @ string_of_nat n, description = [], date = int n,
      category = ''Golang'', tags = [''Concurrency''], sticky = (n = 2)\<rparr>"

definition sample_posts :: "nat \<Rightarrow> post list" where
  "sample_posts n = map sample_post [0..<n]"

section \<open>Properties of the ordering\<close>

lemma precedes_total: "\<not> precedes d a b \<Longrightarrow> precedes d b a"
  by (cases d) (auto simp: precedes_def date_le_def)

lemma precedes_trans: "precedes d a b \<Longrightarrow> precedes d b c \<Longrightarrow> precedes d a c"
  by (cases d) (auto simp: precedes_def date_le_def split: if_splits)

lemma mset_insert_post: "mset (insert_post d p qs) = add_mset p (mset qs)"
  by (induction qs) auto

lemma set_insert_post: "set (insert_post d p qs) = insert p (set qs)"
  by (induction qs) auto

lemma sorted_insert_post:
  "sorted_wrt (precedes d) qs \<Longrightarrow> sorted_wrt (precedes d) (insert_post d p qs)"
proof (induction qs)
  case Nil
  then show ?case by simp
next
  case (Cons q qs)
  show ?case
  proof (cases "precedes d p q")
    case True
    have "\<forall>x\<in>set qs. precedes d p x"
      using Cons.prems True by (auto intro: precedes_trans)
    with True Cons.prems show ?thesis by simp
  next
    case False
    then have "precedes d q p" by (rule precedes_total)
    with False Cons show ?thesis by (auto simp: set_insert_post)
  qed
qed

lemma mset_orderBySticky: "mset (orderBySticky d ps) = mset ps"
  by (induction ps) (simp_all add: mset_insert_post)

lemma length_orderBySticky: "length (orderBySticky d ps) = length ps"
  using mset_orderBySticky [of d ps] by (metis size_mset)

lemma sorted_orderBySticky: "sorted_wrt (precedes d) (orderBySticky d ps)"
  by (induction ps) (simp_all add: sorted_insert_post)

lemma sticky_before_plain:
  assumes "sorted_wrt (precedes d) xs" "i < length xs" "j < length xs"
    and "sticky (xs ! i)" "\<not> sticky (xs ! j)"
  shows "i < j"
proof (rule ccontr)
  assume "\<not> i < j"
  with assms(4,5) have "j < i"
    by (cases "i = j") auto
  with assms(1,2) have "precedes d (xs ! j) (xs ! i)"
    by (simp add: sorted_wrt_iff_nth_less)
  with assms(4,5) show False
    by (simp add: precedes_def)
qed

lemma same_flag_by_date:
  assumes "sorted_wrt (precedes d) xs" "i < j" "j < length xs"
    and "sticky (xs ! i) = sticky (xs ! j)"
  shows "date_le d (date (xs ! i)) (date (xs ! j))"
proof -
  from assms(1-3) have "precedes d (xs ! i) (xs ! j)"
    by (simp add: sorted_wrt_iff_nth_less)
  with assms(4) show ?thesis
    by (simp add: precedes_def)
qed

lemma sample_post_sel:
  "sticky (sample_post n) = (n = 2)"
  "date (sample_post n) = int n"
  "title (sample_post n) = ''post '' @ string_of_nat n"
  by (simp_all add: sample_post_def)

section \<open>Page arithmetic\<close>

lemma ceil_cases:
  assumes "0 < b"
  shows "nat \<lceil>real a / real b\<rceil> = (if a mod b = 0 then a div b else a div b + 1)"
proof -
  have "\<lceil>real a / real b\<rceil> = - (- int a div int b)"
    using ceiling_divide_eq_div [of "int a" "int b"] by simp
  also have "\<dots> = (if int a mod int b = 0 then int a div int b else int a div int b + 1)"
    using assms by (simp add: zdiv_zminus1_eq_if)
  also have "\<dots> = int (if a mod b = 0 then a div b else a div b + 1)"
    by (simp flip: of_nat_mod of_nat_div)
  finally show ?thesis by simp
qed

lemma ceil_div:
  assumes "0 < b"
  shows "nat \<lceil>real a / real b\<rceil> = (a + b - 1) div b"
proof -
  define q r where "q = a div b" and "r = a mod b"
  have a: "a = b * q + r" and r: "r < b"
    using assms by (simp_all add: q_def r_def)
  have "(a + b - 1) div b = (if r = 0 then q else q + 1)"
  proof (cases "r = 0")
    case True
    have "(b * q + (b - 1)) div b = q"
      using assms by (intro div_nat_eqI) simp_all
    with True a assms show ?thesis by (simp add: add.commute)
  next
    case False
    have "(b * q + r + b - 1) div b = Suc q"
      using assms r False by (intro div_nat_eqI) simp_all
    with False a show ?thesis by simp
  qed
  then show ?thesis
    using ceil_cases [OF assms, of a] by (simp add: q_def r_def)
qed

lemma postPageSize_site: "postPageSize site = 10"
  by (simp add: site_def)

lemma totalPage_div: "lodash_ceil (lodash_divide n 10) = (n + 9) div 10"
  using ceil_div [of 10 n] by (simp add: lodash_ceil_def lodash_divide_def)

lemma pages_cover: "(n::nat) \<le> max 1 ((n + 9) div 10) * 10"
  by (simp add: max_def) presburger

lemma totalPage_gt_one: "Suc 0 < ((n::nat) + 9) div 10 \<longleftrightarrow> 10 < n"
  by presburger

lemma totalPage_pos: "0 < (n::nat) \<Longrightarrow> max 1 ((n + 9) div 10) = (n + 9) div 10"
  by (simp add: max_def)

lemma full_page: "Suc k < max 1 ((n + 9) div 10) \<Longrightarrow> k * 10 + 10 \<le> (n::nat)"
  by (simp add: max_def split: if_splits)

lemma page_of_index:
  assumes "i < (n::nat)"
  shows "(k < max 1 ((n + 9) div 10) \<and> k * 10 \<le> i \<and> i < min (k * 10 + 10) n)
           \<longleftrightarrow> k = i div 10"
proof -
  have "i div 10 < (n + 9) div 10"
    using assms by arith
  then have a: "i div 10 < max 1 ((n + 9) div 10)"
    by simp
  have b: "k * 10 \<le> i \<and> i < k * 10 + 10 \<longleftrightarrow> k = i div 10"
    by arith
  show ?thesis
  proof
    assume "k < max 1 ((n + 9) div 10) \<and> k * 10 \<le> i \<and> i < min (k * 10 + 10) n"
    then have "k * 10 \<le> i \<and> i < k * 10 + 10" by simp
    with b show "k = i div 10" by blast
  next
    assume k: "k = i div 10"
    with b have "k * 10 \<le> i \<and> i < k * 10 + 10" by blast
    with a k assms show "k < max 1 ((n + 9) div 10) \<and> k * 10 \<le> i \<and> i < min (k * 10 + 10) n"
      by simp
  qed
qed

section \<open>The shape of the generated pages\<close>

lemma slice_page: "slice xs s (min (s + n) (length xs)) = take n (drop s xs)"
  by (simp add: slice_def min_def)

lemma slice_nth: "e \<le> length xs \<Longrightarrow> slice xs s e = map ((!) xs) [s..<e]"
  by (rule nth_equalityI) (auto simp: slice_def)

lemma concat_pages: "concat (map (\<lambda>k. take n (drop (k * n) xs)) [0..<m]) = take (m * n) xs"
proof (induction m)
  case 0
  then show ?case by simp
next
  case (Suc m)
  have "take (m * n + n) xs = take (m * n) xs @ take n (drop (m * n) xs)"
    by (rule take_add)
  with Suc show ?case by (simp add: add.commute)
qed

lemma paginate_blog:
  "paginate blog_route xs (postPageSize site) =
     Inr (map (paginate_page blog_route True xs 10 (max 1 ((length xs + 9) div 10)))
            [0..<max 1 ((length xs + 9) div 10)])"
proof -
  have "nat \<lceil>real (length xs) / real 10\<rceil> = (length xs + 9) div 10"
    using ceil_div [of 10 "length xs"] by simp
  then show ?thesis
    by (simp add: paginate_def blog_route_def postPageSize_site Let_def)
qed

lemma getStaticPaths_pages:
  "getStaticPaths d (Inr posts) =
     Inr (map (paginate_page blog_route True (orderBySticky d posts) 10
                 (max 1 ((length (orderBySticky d posts) + 9) div 10)))
            [0..<max 1 ((length (orderBySticky d posts) + 9) div 10)])"
  by (simp add: getStaticPaths_def paginate_blog Let_def)

lemma getStaticPaths_Inr:
  "getStaticPaths d (Inr posts) =
     Inr (map (paginate_page blog_route True (orderBySticky d posts) 10
                 (max 1 ((length posts + 9) div 10)))
            [0..<max 1 ((length posts + 9) div 10)])"
  by (simp add: getStaticPaths_pages length_orderBySticky)

lemma generate_blog: "generate blog_route (Some s) = ''/blog/'' @ s"
  by (simp add: generate_def blog_route_def)

lemma paginate_page_data:
  "data (props_page (paginate_page r b xs n L k)) = take n (drop (k * n) xs)"
  by (simp add: paginate_page_def Let_def slice_page)

lemma paginate_page_fields:
  "currentPage (props_page (paginate_page r b xs n L k)) = k + 1"
  "lastPage (props_page (paginate_page r b xs n L k)) = L"
  "total (props_page (paginate_page r b xs n L k)) = length xs"
  "page_size (props_page (paginate_page r b xs n L k)) = n"
  "start_index (props_page (paginate_page r b xs n L k)) = k * n"
  "end_index (props_page (paginate_page r b xs n L k)) = int (min (k * n + n) (length xs)) - 1"
  "params_page (paginate_page r True xs n L k) = Some (string_of_nat (k + 1))"
  "current_url (url (props_page (paginate_page r True xs n L k))) =
     Some (generate r (Some (string_of_nat (k + 1))))"
  by (simp_all add: paginate_page_def Let_def)

lemma string_of_nat_Suc_0: "string_of_nat (Suc 0) = ''1''"
  by (simp add: string_of_nat.simps digit_def)

lemma getStaticPaths_empty:
  "getStaticPaths d (Inr []) =
     Inr [\<lparr>params_page = Some ''1'',
           props_page =
             \<lparr>data = [], start_index = 0, end_index = - 1, page_size = 10, total = 0,
              currentPage = 1, lastPage = 1,
              url = \<lparr>current_url = Some ''/blog/1'', prev_url = None, next_url = None\<rparr>\<rparr>\<rparr>]"
  by (simp add: getStaticPaths_Inr paginate_page_def slice_def generate_blog string_of_nat_Suc_0)

lemma slice_page_size: "slice xs (k * n) (k * n + n) = take n (drop (k * n) xs)"
  by (simp add: slice_def)


lemma getStaticPaths_fixed_size:
  "\<exists>paths. getStaticPaths d (Inr posts) = Inr paths \<and>
     (\<forall>k<length paths.
        data (props_page (paths ! k)) =
          slice (orderBySticky d posts) (k * postPageSize site)
            (k * postPageSize site + postPageSize site)) \<and>
     (\<forall>k. Suc k < length paths \<longrightarrow>
        length (data (props_page (paths ! k))) = postPageSize site) \<and>
     (\<forall>sp\<in>set paths. length (data (props_page sp)) \<le> postPageSize site) \<and>
     concat (map (\<lambda>sp. data (props_page sp)) paths) = orderBySticky d posts"
proof -
  define S where "S = orderBySticky d posts"
  define L where "L = max 1 ((length S + 9) div 10)"
  define paths where "paths = map (paginate_page blog_route True S 10 L) [0..<L]"
  have run: "getStaticPaths d (Inr posts) = Inr paths"
    by (simp add: getStaticPaths_pages paths_def S_def L_def)
  have seg: "\<forall>k<length paths.
      data (props_page (paths ! k)) =
        slice S (k * postPageSize site) (k * postPageSize site + postPageSize site)"
    by (simp add: paths_def paginate_page_data postPageSize_site slice_page_size)
  have full: "\<forall>k. Suc k < length paths \<longrightarrow>
      length (data (props_page (paths ! k))) = postPageSize site"
  proof (intro allI impI)
    fix k assume k: "Suc k < length paths"
    then have "k * 10 + 10 \<le> length S"
      using full_page [of k "length S"] by (simp add: paths_def L_def)
    with k show "length (data (props_page (paths ! k))) = postPageSize site"
      by (simp add: paths_def paginate_page_data postPageSize_site)
  qed
  have most: "\<forall>sp\<in>set paths. length (data (props_page sp)) \<le> postPageSize site"
    by (auto simp: paths_def paginate_page_data postPageSize_site)
  have "concat (map (\<lambda>sp. data (props_page sp)) paths) = take (L * 10) S"
    using concat_pages [of 10 S L] by (simp add: paths_def paginate_page_data comp_def)
  moreover have "length S \<le> L * 10"
    using pages_cover [of "length S"] by (simp add: L_def)
  ultimately have cat: "concat (map (\<lambda>sp. data (props_page sp)) paths) = S"
    by simp
  from run seg full most cat show ?thesis
    unfolding S_def by blast
qed

section \<open>The script of the home page\<close>

lemma splice_last:
  "splice (h @ [xs]) (length h) 0 n = (Suc (length h), h @ [drop n xs, take n xs])"
  by (simp add: splice_def alloc_def Let_def)

lemma truncate_step_eq:
  "truncate_step (h @ [xs]) (length h) =
     (if 10 < length xs then (Suc (length h), h @ [drop 10 xs, take 10 xs])
      else (length h, h @ [xs]))"
  by (simp add: truncate_step_def splice_last postPageSize_site)

lemma truncate_step_result:
  "a < length h \<Longrightarrow>
   snd (truncate_step h a) ! fst (truncate_step h a) = take 10 (h ! a)"
  by (simp add: truncate_step_def splice_def alloc_def postPageSize_site Let_def nth_append)

lemma index_script_eq:
  "index_script d h blogs =
     (\<lparr>iv_currentPage = 1, iv_blogs = blogs,
       iv_totalPage = lodash_ceil (lodash_divide (length (h ! blogs)) (postPageSize site)),
       iv_sortedPosts = (if 10 < length (h ! blogs) then Suc (length h) else length h)\<rparr>,
      (if 10 < length (h ! blogs)
       then h @ [drop 10 (orderBySticky d (h ! blogs)), take 10 (orderBySticky d (h ! blogs))]
       else h @ [orderBySticky d (h ! blogs)]))"
  by (simp add: index_script_def orderBySticky_call_def alloc_def truncate_step_def
      splice_last length_orderBySticky postPageSize_site)

lemma index_shown:
  "shown (index_template (snd (index_script d h blogs)) (fst (index_script d h blogs))) =
     take 10 (orderBySticky d (h ! blogs))"
  by (simp add: index_script_eq index_template_def length_orderBySticky nth_append)

lemma index_frontmatter_Inr:
  "index_frontmatter d (Inr posts) = Inr (index_script d [posts] 0)"
  by (simp add: index_frontmatter_def alloc_def)

lemma index_page_Inr:
  "index_page d (Inr posts) =
     Inr \<lparr>shown = take 10 (orderBySticky d posts),
          pagination =
            (if 10 < length posts
             then Some \<lparr>pg_currentPage = 1,
                        pg_totalPage = lodash_ceil (lodash_divide (length posts) (postPageSize site)),
                        pg_url = \<lparr>current_url = None, prev_url = Some [],
                                  next_url = Some ''/blog/2''\<rparr>\<rparr>
             else None)\<rparr>"
  by (simp add: index_page_def index_frontmatter_Inr index_script_eq index_template_def
      postPageSize_site totalPage_div totalPage_gt_one length_orderBySticky)

lemma index_frontmatter_totalPage:
  "\<exists>vars h. index_frontmatter d (Inr posts) = Inr (vars, h) \<and>
     index_page d (Inr posts) = Inr (index_template h vars) \<and>
     iv_currentPage vars = 1 \<and>
     iv_totalPage vars = lodash_ceil (lodash_divide (length posts) (postPageSize site)) \<and>
     shown (index_template h vars) = take 10 (orderBySticky d posts)"
proof -
  obtain vars h where vh: "index_script d [posts] 0 = (vars, h)"
    by (cases "index_script d [posts] 0")
  then have fm: "index_frontmatter d (Inr posts) = Inr (vars, h)"
    by (simp add: index_frontmatter_Inr)
  then have pg: "index_page d (Inr posts) = Inr (index_template h vars)"
    by (simp add: index_page_def)
  from vh have "iv_currentPage vars = 1"
    and "iv_totalPage vars = lodash_ceil (lodash_divide (length posts) (postPageSize site))"
    by (auto simp: index_script_eq)
  moreover have "shown (index_template h vars) = take 10 (orderBySticky d posts)"
    using index_shown [of d "[posts]" 0] vh by simp
  ultimately show ?thesis
    using fm pg by blast
qed

section \<open>The contents of the blog pages\<close>



text \<open>
  Claim C8. Pagination partitions the sorted posts: every generated blog page holds at most
  \<open>postPageSize site\<close> (10) posts, every page but the last holds exactly that many, the
  pages concatenated in page order are the sticky-then-date ordering, each page is the
  segment of the ordering between its \<^verbatim>\<open>start\<close> and \<^verbatim>\<open>end\<close>, and every position of the
  ordering lies on exactly one page.
\<close>

theorem pages_partition_posts:
  "\<exists>paths. getStaticPaths d (Inr posts) = Inr paths \<and>
     (\<forall>sp\<in>set paths. length (data (props_page sp)) \<le> postPageSize site) \<and>
     (\<forall>k. Suc k < length paths \<longrightarrow>
        length (data (props_page (paths ! k))) = postPageSize site) \<and>
     concat (map (\<lambda>sp. data (props_page sp)) paths) = orderBySticky d posts \<and>
     (\<forall>k<length paths.
        data (props_page (paths ! k)) =
          slice (orderBySticky d posts) (start_index (props_page (paths ! k)))
            (nat (end_index (props_page (paths ! k)) + 1))) \<and>
     (\<forall>i<length (orderBySticky d posts).
        \<exists>!k. k < length paths \<and> start_index (props_page (paths ! k)) \<le> i \<and>
             int i \<le> end_index (props_page (paths ! k)))"
proof -
  define S where "S = orderBySticky d posts"
  define L where "L = max 1 ((length S + 9) div 10)"
  define paths where "paths = map (paginate_page blog_route True S 10 L) [0..<L]"
  have run: "getStaticPaths d (Inr posts) = Inr paths"
    by (simp add: getStaticPaths_pages paths_def S_def L_def)
  have nth: "paths ! k = paginate_page blog_route True S 10 L k" if "k < L" for k
    using that by (simp add: paths_def)
  have most: "\<forall>sp\<in>set paths. length (data (props_page sp)) \<le> postPageSize site"
    by (auto simp: paths_def paginate_page_data postPageSize_site)
  have full: "\<forall>k. Suc k < length paths \<longrightarrow>
      length (data (props_page (paths ! k))) = postPageSize site"
  proof (intro allI impI)
    fix k assume k: "Suc k < length paths"
    then have "k * 10 + 10 \<le> length S"
      using full_page [of k "length S"] by (simp add: paths_def L_def)
    with k show "length (data (props_page (paths ! k))) = postPageSize site"
      by (simp add: nth paths_def paginate_page_data postPageSize_site)
  qed
  have "concat (map (\<lambda>sp. data (props_page sp)) paths) = take (L * 10) S"
    using concat_pages [of 10 S L] by (simp add: paths_def paginate_page_data comp_def)
  moreover have "length S \<le> L * 10"
    using pages_cover [of "length S"] by (simp add: L_def)
  ultimately have cat: "concat (map (\<lambda>sp. data (props_page sp)) paths) = S"
    by simp
  have seg: "\<forall>k<length paths.
      data (props_page (paths ! k)) =
        slice S (start_index (props_page (paths ! k)))
          (nat (end_index (props_page (paths ! k)) + 1))"
    by (simp add: paths_def paginate_page_data paginate_page_fields slice_page)
  have one: "\<forall>i<length S.
      \<exists>!k. k < length paths \<and> start_index (props_page (paths ! k)) \<le> i \<and>
           int i \<le> end_index (props_page (paths ! k))"
  proof (intro allI impI)
    fix i assume i: "i < length S"
    have "(k < length paths \<and> start_index (props_page (paths ! k)) \<le> i \<and>
           int i \<le> end_index (props_page (paths ! k))) \<longleftrightarrow> k = i div 10" for k
    proof (cases "k < L")
      case True
      have "int i \<le> int (min (k * 10 + 10) (length S)) - 1 \<longleftrightarrow> i < min (k * 10 + 10) (length S)"
        by linarith
      with True show ?thesis
        using page_of_index [of i "length S" k] i
        by (simp add: nth paginate_page_fields L_def paths_def)
    next
      case False
      then show ?thesis
        using page_of_index [of i "length S" k] i
        by (auto simp add: L_def paths_def)
    qed
    then show "\<exists>!k. k < length paths \<and> start_index (props_page (paths ! k)) \<le> i \<and>
           int i \<le> end_index (props_page (paths ! k))"
      by simp
  qed
  from run most full cat seg one show ?thesis
    unfolding S_def by blast
qed

theorem pages_partition_posts_witness:
  "\<exists>paths. getStaticPaths NewestFirst (Inr (sample_posts 11)) = Inr paths \<and>
     length paths = 2 \<and>
     length (data (props_page (paths ! 0))) = 10 \<and>
     length (data (props_page (paths ! 1))) \<le> 10 \<and>
     data (props_page (paths ! 1)) =
       slice (orderBySticky NewestFirst (sample_posts 11))
         (start_index (props_page (paths ! 1))) (nat (end_index (props_page (paths ! 1)) + 1)) \<and>
     (\<exists>!k. k < length paths \<and> start_index (props_page (paths ! k)) \<le> 10 \<and>
           int 10 \<le> end_index (props_page (paths ! k))) \<and>
     concat (map (\<lambda>sp. data (props_page sp)) paths) =
       orderBySticky NewestFirst (sample_posts 11)"
proof -
  from pages_partition_posts [of NewestFirst "sample_posts 11"] obtain paths where
    run: "getStaticPaths NewestFirst (Inr (sample_posts 11)) = Inr paths" and
    most: "\<forall>sp\<in>set paths. length (data (props_page sp)) \<le> postPageSize site" and
    full: "\<forall>k. Suc k < length paths \<longrightarrow>
             length (data (props_page (paths ! k))) = postPageSize site" and
    cat: "concat (map (\<lambda>sp. data (props_page sp)) paths) =
            orderBySticky NewestFirst (sample_posts 11)" and
    seg: "\<forall>k<length paths.
        data (props_page (paths ! k)) =
          slice (orderBySticky NewestFirst (sample_posts 11))
            (start_index (props_page (paths ! k)))
            (nat (end_index (props_page (paths ! k)) + 1))" and
    one: "\<forall>i<length (orderBySticky NewestFirst (sample_posts 11)).
        \<exists>!k. k < length paths \<and> start_index (props_page (paths ! k)) \<le> i \<and>
             int i \<le> end_index (props_page (paths ! k))"
    by blast
  have two: "length paths = 2"
    using run by (auto simp: getStaticPaths_Inr sample_posts_def)
  have n: "length (orderBySticky NewestFirst (sample_posts 11)) = 11"
    by (simp add: length_orderBySticky sample_posts_def)
  from two full have a: "length (data (props_page (paths ! 0))) = 10"
    by (simp add: postPageSize_site)
  from two have "paths ! 1 \<in> set paths"
    by simp
  with most have b: "length (data (props_page (paths ! 1))) \<le> 10"
    by (simp add: postPageSize_site)
  from two seg have c: "data (props_page (paths ! 1)) =
       slice (orderBySticky NewestFirst (sample_posts 11))
         (start_index (props_page (paths ! 1))) (nat (end_index (props_page (paths ! 1)) + 1))"
    by simp
  have "(10::nat) < length (orderBySticky NewestFirst (sample_posts 11))"
    by (simp add: n)
  with one have e: "\<exists>!k. k < length paths \<and> start_index (props_page (paths ! k)) \<le> 10 \<and>
           int 10 \<le> end_index (props_page (paths ! k))"
    by blast
  from run two a b c e cat show ?thesis
    by (intro exI [of _ paths] conjI)
qed

section \<open>The ordering\<close>

text \<open>
  Claim C2. The output of \<open>orderBySticky\<close> is an arrangement of the posts it is given in
  which every sticky post stands before every post that is not sticky, whatever their
  dates, and posts with the same sticky flag stand in date order (\<open>date_le d\<close>: ascending
  for \<open>OldestFirst\<close>, descending for \<open>NewestFirst\<close>); and this list is the one that
  \<open>getStaticPaths\<close> slices into pages of fixed size: page \<open>k\<close> is the slice of the list from
  index \<open>k * postPageSize site\<close> to \<open>k * postPageSize site + postPageSize site\<close>, every
  page but the last holds exactly \<open>postPageSize site\<close> posts, none holds more, and the pages
  in order make up the list.
\<close>

theorem sticky_first_then_date:
  "mset (orderBySticky d posts) = mset posts \<and>
   (\<forall>i j. i < length (orderBySticky d posts) \<and> j < length (orderBySticky d posts) \<and>
      sticky (orderBySticky d posts ! i) \<and> \<not> sticky (orderBySticky d posts ! j) \<longrightarrow> i < j) \<and>
   (\<forall>i j. i < j \<and> j < length (orderBySticky d posts) \<and>
      sticky (orderBySticky d posts ! i) = sticky (orderBySticky d posts ! j) \<longrightarrow>
      date_le d (date (orderBySticky d posts ! i)) (date (orderBySticky d posts ! j))) \<and>
   (\<exists>paths. getStaticPaths d (Inr posts) = Inr paths \<and>
      (\<forall>k<length paths.
         data (props_page (paths ! k)) =
           slice (orderBySticky d posts) (k * postPageSize site)
             (k * postPageSize site + postPageSize site)) \<and>
      (\<forall>k. Suc k < length paths \<longrightarrow>
         length (data (props_page (paths ! k))) = postPageSize site) \<and>
      (\<forall>sp\<in>set paths. length (data (props_page sp)) \<le> postPageSize site) \<and>
      concat (map (\<lambda>sp. data (props_page sp)) paths) = orderBySticky d posts)"
proof (intro conjI)
  show "mset (orderBySticky d posts) = mset posts"
    by (rule mset_orderBySticky)
next
  show "\<forall>i j. i < length (orderBySticky d posts) \<and> j < length (orderBySticky d posts) \<and>
      sticky (orderBySticky d posts ! i) \<and> \<not> sticky (orderBySticky d posts ! j) \<longrightarrow> i < j"
    using sticky_before_plain [OF sorted_orderBySticky [of d posts]] by blast
next
  show "\<forall>i j. i < j \<and> j < length (orderBySticky d posts) \<and>
      sticky (orderBySticky d posts ! i) = sticky (orderBySticky d posts ! j) \<longrightarrow>
      date_le d (date (orderBySticky d posts ! i)) (date (orderBySticky d posts ! j))"
    using same_flag_by_date [OF sorted_orderBySticky [of d posts]] by blast
next
  show "\<exists>paths. getStaticPaths d (Inr posts) = Inr paths \<and>
      (\<forall>k<length paths.
         data (props_page (paths ! k)) =
           slice (orderBySticky d posts) (k * postPageSize site)
             (k * postPageSize site + postPageSize site)) \<and>
      (\<forall>k. Suc k < length paths \<longrightarrow>
         length (data (props_page (paths ! k))) = postPageSize site) \<and>
      (\<forall>sp\<in>set paths. length (data (props_page sp)) \<le> postPageSize site) \<and>
      concat (map (\<lambda>sp. data (props_page sp)) paths) = orderBySticky d posts"
    by (rule getStaticPaths_fixed_size)
qed

theorem sticky_first_then_date_witness:
  "(map title (orderBySticky NewestFirst (sample_posts 4)) =
      [''post 2'', ''post 3'', ''post 1'', ''post 0''] \<and>
    sticky (orderBySticky NewestFirst (sample_posts 4) ! 0) \<and>
    \<not> sticky (orderBySticky NewestFirst (sample_posts 4) ! 1) \<and>
    date (orderBySticky NewestFirst (sample_posts 4) ! 0) = 2 \<and>
    date (orderBySticky NewestFirst (sample_posts 4) ! 1) = 3 \<and>
    date_le NewestFirst (date (orderBySticky NewestFirst (sample_posts 4) ! 1))
      (date (orderBySticky NewestFirst (sample_posts 4) ! 2))) \<and>
   (\<exists>paths. getStaticPaths NewestFirst (Inr (sample_posts 11)) = Inr paths \<and>
      length paths = 2 \<and>
      data (props_page (paths ! 1)) =
        slice (orderBySticky NewestFirst (sample_posts 11)) 10 20 \<and>
      length (data (props_page (paths ! 0))) = 10 \<and>
      length (data (props_page (paths ! 1))) \<le> 10)"
proof
  have S: "orderBySticky NewestFirst (sample_posts 4) =
      [sample_post 2, sample_post 3, sample_post 1, sample_post 0]"
    by (simp add: sample_posts_def sample_post_def precedes_def date_le_def upt_rec
        numeral_2_eq_2 numeral_3_eq_3)
  note flags = sample_post_sel
  have "(1::nat) < 2 \<and> 2 < length (orderBySticky NewestFirst (sample_posts 4)) \<and>
      sticky (orderBySticky NewestFirst (sample_posts 4) ! 1) =
      sticky (orderBySticky NewestFirst (sample_posts 4) ! 2)"
    by (simp add: S flags)
  with sticky_first_then_date [of NewestFirst "sample_posts 4"]
  have "date_le NewestFirst (date (orderBySticky NewestFirst (sample_posts 4) ! 1))
     (date (orderBySticky NewestFirst (sample_posts 4) ! 2))"
    by blast
  moreover have "map title (orderBySticky NewestFirst (sample_posts 4)) =
     [''post 2'', ''post 3'', ''post 1'', ''post 0'']"
    by (simp add: S sample_post_sel string_of_nat.simps digit_def)
  moreover have "date (orderBySticky NewestFirst (sample_posts 4) ! 0) = 2"
    "date (orderBySticky NewestFirst (sample_posts 4) ! 1) = 3"
    by (simp_all add: S sample_post_sel)
  ultimately show "map title (orderBySticky NewestFirst (sample_posts 4)) =
      [''post 2'', ''post 3'', ''post 1'', ''post 0''] \<and>
    sticky (orderBySticky NewestFirst (sample_posts 4) ! 0) \<and>
    \<not> sticky (orderBySticky NewestFirst (sample_posts 4) ! 1) \<and>
    date (orderBySticky NewestFirst (sample_posts 4) ! 0) = 2 \<and>
    date (orderBySticky NewestFirst (sample_posts 4) ! 1) = 3 \<and>
    date_le NewestFirst (date (orderBySticky NewestFirst (sample_posts 4) ! 1))
      (date (orderBySticky NewestFirst (sample_posts 4) ! 2))"
    by (simp add: S flags)
next
  from sticky_first_then_date [of NewestFirst "sample_posts 11"] obtain paths where
    run: "getStaticPaths NewestFirst (Inr (sample_posts 11)) = Inr paths" and
    seg: "\<forall>k<length paths.
         data (props_page (paths ! k)) =
           slice (orderBySticky NewestFirst (sample_posts 11)) (k * postPageSize site)
             (k * postPageSize site + postPageSize site)" and
    full: "\<forall>k. Suc k < length paths \<longrightarrow>
         length (data (props_page (paths ! k))) = postPageSize site" and
    most: "\<forall>sp\<in>set paths. length (data (props_page sp)) \<le> postPageSize site"
    by blast
  have two: "length paths = 2"
    using run by (auto simp: getStaticPaths_Inr sample_posts_def)
  then have one: "(1::nat) < length paths" and mem: "paths ! 1 \<in> set paths"
    by simp_all
  from one seg have a: "data (props_page (paths ! 1)) =
      slice (orderBySticky NewestFirst (sample_posts 11)) (1 * postPageSize site)
        (1 * postPageSize site + postPageSize site)"
    by blast
  from two full have b: "length (data (props_page (paths ! 0))) = 10"
    by (simp add: postPageSize_site)
  from mem most have c: "length (data (props_page (paths ! 1))) \<le> 10"
    by (simp add: postPageSize_site)
  from a have a': "data (props_page (paths ! 1)) =
      slice (orderBySticky NewestFirst (sample_posts 11)) 10 20"
    by (simp add: postPageSize_site)
  from run two a' b c show "\<exists>paths. getStaticPaths NewestFirst (Inr (sample_posts 11)) = Inr paths \<and>
      length paths = 2 \<and>
      data (props_page (paths ! 1)) =
        slice (orderBySticky NewestFirst (sample_posts 11)) 10 20 \<and>
      length (data (props_page (paths ! 0))) = 10 \<and>
      length (data (props_page (paths ! 1))) \<le> 10"
    by (intro exI [of _ paths] conjI)
qed

section \<open>Arrays and state\<close>

text \<open>
  Claim C4. Computing the home page's posts leaves the loaded posts array as it was: the
  array at \<open>blogs\<close> holds the same elements, and so has the same length, after the call of
  \<open>orderBySticky\<close>, after the truncation step and when the script ends; no array that
  existed before the script is changed; and for every collection the loader delivers, the
  array the variable \<^verbatim>\<open>blogs\<close> holds when the script ends is that collection. (The
  truncation changes the array that \<open>orderBySticky\<close> returned, which is a different one.)
\<close>

theorem loaded_posts_unchanged:
  "(blogs < length h \<longrightarrow>
      snd (orderBySticky_call d h blogs) ! blogs = h ! blogs \<and>
      snd (truncate_step (snd (orderBySticky_call d h blogs))
             (fst (orderBySticky_call d h blogs))) ! blogs = h ! blogs \<and>
      snd (index_script d h blogs) ! blogs = h ! blogs \<and>
      length (snd (index_script d h blogs) ! blogs) = length (h ! blogs) \<and>
      iv_blogs (fst (index_script d h blogs)) = blogs \<and>
      take (length h) (snd (index_script d h blogs)) = h) \<and>
   (\<exists>vars h'. index_frontmatter d (Inr posts) = Inr (vars, h') \<and>
      h' ! iv_blogs vars = posts)"
proof
  show "blogs < length h \<longrightarrow>
      snd (orderBySticky_call d h blogs) ! blogs = h ! blogs \<and>
      snd (truncate_step (snd (orderBySticky_call d h blogs))
             (fst (orderBySticky_call d h blogs))) ! blogs = h ! blogs \<and>
      snd (index_script d h blogs) ! blogs = h ! blogs \<and>
      length (snd (index_script d h blogs) ! blogs) = length (h ! blogs) \<and>
      iv_blogs (fst (index_script d h blogs)) = blogs \<and>
      take (length h) (snd (index_script d h blogs)) = h"
    by (simp add: orderBySticky_call_def alloc_def truncate_step_eq index_script_eq nth_append)
next
  obtain vars h' where run: "index_script d [posts] 0 = (vars, h')"
    by (cases "index_script d [posts] 0")
  then have "h' ! iv_blogs vars = posts"
    by (auto simp: index_script_eq)
  with run show "\<exists>vars h'. index_frontmatter d (Inr posts) = Inr (vars, h') \<and>
      h' ! iv_blogs vars = posts"
    by (simp add: index_frontmatter_Inr)
qed

theorem loaded_posts_unchanged_witness:
  "snd (index_script NewestFirst [sample_posts 11] 0) ! 0 = sample_posts 11 \<and>
   length (snd (index_script NewestFirst [sample_posts 11] 0) ! 0) = 11 \<and>
   length (snd (index_script NewestFirst [sample_posts 11] 0) ! 1) = 1 \<and>
   length (snd (index_script NewestFirst [sample_posts 11] 0) !
             iv_sortedPosts (fst (index_script NewestFirst [sample_posts 11] 0))) = 10"
proof -
  have n: "length (sample_posts 11) = 11"
    by (simp add: sample_posts_def)
  have "(0::nat) < length [sample_posts 11]"
    by simp
  with loaded_posts_unchanged [of 0 "[sample_posts 11]" NewestFirst]
  have "snd (index_script NewestFirst [sample_posts 11] 0) ! 0 = [sample_posts 11] ! 0"
    by blast
  moreover have "length (snd (index_script NewestFirst [sample_posts 11] 0) !
             iv_sortedPosts (fst (index_script NewestFirst [sample_posts 11] 0))) = 10"
    "length (snd (index_script NewestFirst [sample_posts 11] 0) ! 1) = 1"
    by (simp_all add: index_script_eq n length_orderBySticky)
  ultimately show ?thesis
    by (simp add: n)
qed

section \<open>The URL structure and the page counts\<close>

text \<open>
  Claim C5, as amended. The generated URL structure is \<^verbatim>\<open>/blog/{page}\<close>: for a collection
  of \<open>N\<close> posts \<open>getStaticPaths\<close> yields the pages 1 through
  \<open>max 1 (ceil (N / postPageSize site))\<close>, each addressed as \<^verbatim>\<open>/blog/{page}\<close>; the home page
  computes its total page count as \<open>ceil (N / postPageSize site)\<close> with
  \<open>postPageSize site = 10\<close>, which is the number of generated pages whenever \<open>N \<ge> 1\<close>. For
  \<open>N = 0\<close> the home page counts 0 pages and the one, empty, page \<^verbatim>\<open>/blog/1\<close> is generated.
\<close>

theorem blog_urls:
  "\<exists>paths vars h.
     getStaticPaths d (Inr posts) = Inr paths \<and>
     map params_page paths =
       map (\<lambda>n. Some (string_of_nat n))
         [1..<Suc (max 1 (lodash_ceil (lodash_divide (length posts) (postPageSize site))))] \<and>
     map (\<lambda>sp. current_url (url (props_page sp))) paths =
       map (\<lambda>n. Some (''/blog/'' @ string_of_nat n))
         [1..<Suc (max 1 (lodash_ceil (lodash_divide (length posts) (postPageSize site))))] \<and>
     index_frontmatter d (Inr posts) = Inr (vars, h) \<and>
     iv_totalPage vars = lodash_ceil (lodash_divide (length posts) (postPageSize site)) \<and>
     postPageSize site = 10 \<and>
     (posts \<noteq> [] \<longrightarrow> iv_totalPage vars = length paths) \<and>
     (posts = [] \<longrightarrow> iv_totalPage vars = 0 \<and> length paths = 1)"
proof -
  define S where "S = orderBySticky d posts"
  define L where "L = max 1 ((length posts + 9) div 10)"
  define paths where "paths = map (paginate_page blog_route True S 10 L) [0..<L]"
  have T: "lodash_ceil (lodash_divide (length posts) (postPageSize site)) = (length posts + 9) div 10"
    by (simp add: postPageSize_site totalPage_div)
  have run: "getStaticPaths d (Inr posts) = Inr paths"
    by (simp add: getStaticPaths_Inr paths_def S_def L_def)
  have "map params_page paths = map (\<lambda>n. Some (string_of_nat n)) (map Suc [0..<L])"
    by (simp add: paths_def paginate_page_fields)
  then have params: "map params_page paths = map (\<lambda>n. Some (string_of_nat n)) [1..<Suc L]"
    by (simp only: map_Suc_upt One_nat_def)
  have "map (\<lambda>sp. current_url (url (props_page sp))) paths =
      map (\<lambda>n. Some (''/blog/'' @ string_of_nat n)) (map Suc [0..<L])"
    by (simp add: paths_def paginate_page_fields generate_blog)
  then have urls: "map (\<lambda>sp. current_url (url (props_page sp))) paths =
      map (\<lambda>n. Some (''/blog/'' @ string_of_nat n)) [1..<Suc L]"
    by (simp only: map_Suc_upt One_nat_def)
  from index_frontmatter_totalPage [of d posts] obtain vars h where
    fm: "index_frontmatter d (Inr posts) = Inr (vars, h)" and
    tp: "iv_totalPage vars = lodash_ceil (lodash_divide (length posts) (postPageSize site))"
    by blast
  from tp T have tp': "iv_totalPage vars = (length posts + 9) div 10"
    by simp
  have ne: "posts \<noteq> [] \<longrightarrow> iv_totalPage vars = length paths"
    using totalPage_pos [of "length posts"] by (simp add: tp' paths_def L_def)
  have em: "posts = [] \<longrightarrow> iv_totalPage vars = 0 \<and> length paths = 1"
    by (simp add: tp' paths_def L_def)
  from run params urls fm tp ne em show ?thesis
    unfolding T L_def using postPageSize_site by blast
qed

theorem blog_urls_witness:
  "(\<exists>paths vars h.
      getStaticPaths NewestFirst (Inr (sample_posts 11)) = Inr paths \<and>
      map params_page paths = [Some ''1'', Some ''2''] \<and>
      map (\<lambda>sp. current_url (url (props_page sp))) paths =
        [Some ''/blog/1'', Some ''/blog/2''] \<and>
      index_frontmatter NewestFirst (Inr (sample_posts 11)) = Inr (vars, h) \<and>
      iv_totalPage vars = 2 \<and> length paths = 2) \<and>
   (\<exists>paths vars h.
      getStaticPaths NewestFirst (Inr []) = Inr paths \<and>
      index_frontmatter NewestFirst (Inr []) = Inr (vars, h) \<and>
      iv_totalPage vars = 0 \<and> length paths = 1)"
proof
  have n: "length (sample_posts 11) = 11" and ne: "sample_posts 11 \<noteq> []"
    by (simp_all add: sample_posts_def upt_rec)
  have t: "lodash_ceil (lodash_divide 11 (postPageSize site)) = 2"
    by (simp add: postPageSize_site totalPage_div)
  have nums: "[1..<Suc (max 1 2)] = [1, 2]"
    by (simp add: upt_rec)
  have s2: "string_of_nat 2 = ''2''"
    by (simp add: string_of_nat.simps digit_def)
  from blog_urls [of NewestFirst "sample_posts 11"] ne obtain paths vars h where
    "getStaticPaths NewestFirst (Inr (sample_posts 11)) = Inr paths"
    "map params_page paths = map (\<lambda>n. Some (string_of_nat n)) [1, 2]"
    "map (\<lambda>sp. current_url (url (props_page sp))) paths =
       map (\<lambda>n. Some (''/blog/'' @ string_of_nat n)) [1, 2]"
    "index_frontmatter NewestFirst (Inr (sample_posts 11)) = Inr (vars, h)"
    "iv_totalPage vars = 2" "iv_totalPage vars = length paths"
    unfolding n t nums by blast
  then show "\<exists>paths vars h.
      getStaticPaths NewestFirst (Inr (sample_posts 11)) = Inr paths \<and>
      map params_page paths = [Some ''1'', Some ''2''] \<and>
      map (\<lambda>sp. current_url (url (props_page sp))) paths =
        [Some ''/blog/1'', Some ''/blog/2''] \<and>
      index_frontmatter NewestFirst (Inr (sample_posts 11)) = Inr (vars, h) \<and>
      iv_totalPage vars = 2 \<and> length paths = 2"
    by (intro exI [of _ paths] exI [of _ vars] exI [of _ h]) (simp add: string_of_nat_Suc_0 s2)
next
  from blog_urls [of NewestFirst "[]"] show "\<exists>paths vars h.
      getStaticPaths NewestFirst (Inr []) = Inr paths \<and>
      index_frontmatter NewestFirst (Inr []) = Inr (vars, h) \<and>
      iv_totalPage vars = 0 \<and> length paths = 1"
    by blast
qed

text \<open>
  Without the amendment the pages would run from 1 through \<open>ceil (N / postPageSize site)\<close>.
  For the empty collection that count is 0, and page 1 is generated all the same.
\<close>

theorem blog_urls_counterexample:
  "map params_page (projr (getStaticPaths NewestFirst (Inr []))) = [Some ''1''] \<and>
   lodash_ceil (lodash_divide (length ([] :: post list)) (postPageSize site)) = 0 \<and>
   map params_page (projr (getStaticPaths NewestFirst (Inr []))) \<noteq>
     map (Some \<circ> string_of_nat)
       [1..<Suc (lodash_ceil (lodash_divide (length ([] :: post list)) (postPageSize site)))]"
  by (simp add: getStaticPaths_empty postPageSize_site totalPage_div)

text \<open>
  Claim C9, as amended. The home page and blog page 1 agree on the posts: the home page
  renders the first \<open>min N 10\<close> posts of the ordering, which is the \<^verbatim>\<open>data\<close> of \<^verbatim>\<open>/blog/1\<close>;
  and the home page's total page count is the \<^verbatim>\<open>lastPage\<close> of \<^verbatim>\<open>paginate\<close> whenever there is
  a post. For the empty collection the home page counts 0 pages and \<^verbatim>\<open>lastPage\<close> is 1.
\<close>

theorem home_agrees_with_first_page:
  "\<exists>paths vars h.
     getStaticPaths d (Inr posts) = Inr paths \<and> paths \<noteq> [] \<and>
     params_page (paths ! 0) = Some ''1'' \<and>
     current_url (url (props_page (paths ! 0))) = Some ''/blog/1'' \<and>
     index_frontmatter d (Inr posts) = Inr (vars, h) \<and>
     index_page d (Inr posts) = Inr (index_template h vars) \<and>
     shown (index_template h vars) =
       take (min (length posts) (postPageSize site)) (orderBySticky d posts) \<and>
     shown (index_template h vars) = data (props_page (paths ! 0)) \<and>
     shown (index_template h vars) = shown (blog_template (props_page (paths ! 0))) \<and>
     (posts \<noteq> [] \<longrightarrow> iv_totalPage vars = lastPage (props_page (paths ! 0))) \<and>
     (posts = [] \<longrightarrow> iv_totalPage vars = 0 \<and> lastPage (props_page (paths ! 0)) = 1)"
proof -
  define S where "S = orderBySticky d posts"
  define L where "L = max 1 ((length posts + 9) div 10)"
  define paths where "paths = map (paginate_page blog_route True S 10 L) [0..<L]"
  have len: "length S = length posts"
    by (simp add: S_def length_orderBySticky)
  have L: "0 < L"
    by (simp add: L_def)
  have run: "getStaticPaths d (Inr posts) = Inr paths"
    by (simp add: getStaticPaths_Inr paths_def S_def L_def)
  from L have ne: "paths \<noteq> []"
    by (simp add: paths_def)
  from L have p0: "paths ! 0 = paginate_page blog_route True S 10 L 0"
    by (simp add: paths_def)
  have par: "params_page (paths ! 0) = Some ''1''"
    and cur: "current_url (url (props_page (paths ! 0))) = Some ''/blog/1''"
    and dat: "data (props_page (paths ! 0)) = take 10 S"
    and las: "lastPage (props_page (paths ! 0)) = L"
    by (simp_all add: p0 paginate_page_fields paginate_page_data generate_blog string_of_nat_Suc_0)
  from index_frontmatter_totalPage [of d posts] obtain vars h where
    fm: "index_frontmatter d (Inr posts) = Inr (vars, h)" and
    pg: "index_page d (Inr posts) = Inr (index_template h vars)" and
    tp: "iv_totalPage vars = lodash_ceil (lodash_divide (length posts) (postPageSize site))" and
    sh: "shown (index_template h vars) = take 10 S"
    unfolding S_def by blast
  from tp have tp': "iv_totalPage vars = (length posts + 9) div 10"
    by (simp add: postPageSize_site totalPage_div)
  have "take (min (length posts) 10) S = take 10 S"
    using len by (cases "length posts \<le> 10") (simp_all add: min_def)
  with sh have sh': "shown (index_template h vars) =
      take (min (length posts) (postPageSize site)) S"
    by (simp add: postPageSize_site)
  from sh dat have same: "shown (index_template h vars) = data (props_page (paths ! 0))"
    by simp
  then have same': "shown (index_template h vars) = shown (blog_template (props_page (paths ! 0)))"
    by (simp add: blog_template_def)
  have some: "posts \<noteq> [] \<longrightarrow> iv_totalPage vars = lastPage (props_page (paths ! 0))"
    using totalPage_pos [of "length posts"] by (simp add: tp' las L_def)
  have none: "posts = [] \<longrightarrow> iv_totalPage vars = 0 \<and> lastPage (props_page (paths ! 0)) = 1"
    by (simp add: tp' las L_def)
  from run ne par cur fm pg sh' same same' some none show ?thesis
    unfolding S_def by blast
qed

theorem home_agrees_with_first_page_witness:
  "(\<exists>paths vars h.
      getStaticPaths NewestFirst (Inr (sample_posts 11)) = Inr paths \<and>
      index_frontmatter NewestFirst (Inr (sample_posts 11)) = Inr (vars, h) \<and>
      shown (index_template h vars) = data (props_page (paths ! 0)) \<and>
      iv_totalPage vars = lastPage (props_page (paths ! 0))) \<and>
   (\<exists>paths vars h.
      getStaticPaths NewestFirst (Inr []) = Inr paths \<and>
      index_frontmatter NewestFirst (Inr []) = Inr (vars, h) \<and>
      shown (index_template h vars) = data (props_page (paths ! 0)) \<and>
      iv_totalPage vars = 0 \<and> lastPage (props_page (paths ! 0)) = 1)"
proof
  have "sample_posts 11 \<noteq> []"
    by (simp add: sample_posts_def upt_rec)
  with home_agrees_with_first_page [of NewestFirst "sample_posts 11"]
  show "\<exists>paths vars h.
      getStaticPaths NewestFirst (Inr (sample_posts 11)) = Inr paths \<and>
      index_frontmatter NewestFirst (Inr (sample_posts 11)) = Inr (vars, h) \<and>
      shown (index_template h vars) = data (props_page (paths ! 0)) \<and>
      iv_totalPage vars = lastPage (props_page (paths ! 0))"
    by blast
next
  from home_agrees_with_first_page [of NewestFirst "[]"]
  show "\<exists>paths vars h.
      getStaticPaths NewestFirst (Inr []) = Inr paths \<and>
      index_frontmatter NewestFirst (Inr []) = Inr (vars, h) \<and>
      shown (index_template h vars) = data (props_page (paths ! 0)) \<and>
      iv_totalPage vars = 0 \<and> lastPage (props_page (paths ! 0)) = 1"
    by blast
qed

text \<open>
  Without the amendment the two page counts would be equal on every collection; they differ
  on the empty one.
\<close>

theorem home_total_counterexample:
  "iv_totalPage (fst (projr (index_frontmatter NewestFirst (Inr [])))) = 0 \<and>
   lastPage (props_page (projr (getStaticPaths NewestFirst (Inr [])) ! 0)) = 1 \<and>
   iv_totalPage (fst (projr (index_frontmatter NewestFirst (Inr [])))) \<noteq>
     lastPage (props_page (projr (getStaticPaths NewestFirst (Inr [])) ! 0))"
  by (simp add: getStaticPaths_empty index_frontmatter_Inr index_script_eq postPageSize_site
      totalPage_div)

section \<open>Failures\<close>

text \<open>
  Claim C7. The listing pipeline has no error handling of its own: \<open>getStaticPaths\<close> and
  the home page fail exactly when the content loader failed, and then with the loader's
  failure, unchanged; on every collection the loader delivers they produce their result.
\<close>

theorem no_error_of_their_own:
  "(getStaticPaths d loaded = Inl e \<longleftrightarrow> loaded = Inl e) \<and>
   (index_page d loaded = Inl e \<longleftrightarrow> loaded = Inl e) \<and>
   (\<exists>paths. getStaticPaths d (Inr posts) = Inr paths) \<and>
   (\<exists>v. index_page d (Inr posts) = Inr v)"
  by (cases loaded) (simp_all add: getStaticPaths_Inr index_page_Inr,
      simp_all add: getStaticPaths_def index_page_def index_frontmatter_def)

theorem no_error_of_their_own_witness:
  "getStaticPaths NewestFirst (Inl (ToolingFailure ''missing frontmatter'')) =
     Inl (ToolingFailure ''missing frontmatter'') \<and>
   index_page NewestFirst (Inl (ToolingFailure ''missing frontmatter'')) =
     Inl (ToolingFailure ''missing frontmatter'')"
  using no_error_of_their_own
    [of NewestFirst "Inl (ToolingFailure ''missing frontmatter'')"
        "ToolingFailure ''missing frontmatter''"]
  by simp

section \<open>The pagination controls\<close>

text \<open>
  Claim C10. The home page renders its pagination control if and only if the total page
  count exceeds 1, that is, if and only if there are more than \<open>postPageSize site\<close> posts;
  when rendered, the control has current page 1, the empty string as previous URL and
  \<^verbatim>\<open>/blog/2\<close> as next URL.
\<close>

theorem home_pagination_control:
  "\<exists>v. index_page d (Inr posts) = Inr v \<and>
     (pagination v \<noteq> None \<longleftrightarrow>
        1 < lodash_ceil (lodash_divide (length posts) (postPageSize site))) \<and>
     (pagination v \<noteq> None \<longleftrightarrow> postPageSize site < length posts) \<and>
     (pagination v = None \<or>
      pagination v =
        Some \<lparr>pg_currentPage = 1,
              pg_totalPage = lodash_ceil (lodash_divide (length posts) (postPageSize site)),
              pg_url = \<lparr>current_url = None, prev_url = Some [], next_url = Some ''/blog/2''\<rparr>\<rparr>)"
  by (simp add: index_page_Inr postPageSize_site totalPage_div totalPage_gt_one)

theorem home_pagination_control_witness:
  "\<exists>v. index_page NewestFirst (Inr (sample_posts 11)) = Inr v \<and>
     pagination v =
       Some \<lparr>pg_currentPage = 1, pg_totalPage = 2,
             pg_url = \<lparr>current_url = None, prev_url = Some [], next_url = Some ''/blog/2''\<rparr>\<rparr>"
proof -
  have n: "length (sample_posts 11) = 11"
    by (simp add: sample_posts_def)
  have t: "lodash_ceil (lodash_divide 11 (postPageSize site)) = 2"
    by (simp add: postPageSize_site totalPage_div)
  from home_pagination_control [of NewestFirst "sample_posts 11"]
  show ?thesis
    unfolding n t by (auto simp: postPageSize_site)
qed

text \<open>
  The pagination control of a blog page: page \<open>N\<close> of \<open>M\<close> generated pages passes current
  page \<open>N\<close> with \<open>1 \<le> N \<le> M\<close>, total page count \<open>M\<close>, and the URLs of the page itself,
  of page \<open>N - 1\<close> (none on page 1) and of page \<open>N + 1\<close> (none on the last page).
\<close>

theorem blog_pagination_control:
  "\<exists>paths. getStaticPaths d (Inr posts) = Inr paths \<and>
     (\<forall>sp\<in>set paths.
        \<exists>N. 1 \<le> N \<and> N \<le> length paths \<and>
          pagination (blog_template (props_page sp)) =
            Some \<lparr>pg_currentPage = N, pg_totalPage = length paths,
                  pg_url =
                    \<lparr>current_url = Some (''/blog/'' @ string_of_nat N),
                     prev_url = (if N = 1 then None
                                 else Some (''/blog/'' @ string_of_nat (N - 1))),
                     next_url = (if N = length paths then None
                                 else Some (''/blog/'' @ string_of_nat (N + 1)))\<rparr>\<rparr>)"
proof -
  define S where "S = orderBySticky d posts"
  define L where "L = max 1 ((length posts + 9) div 10)"
  define paths where "paths = map (paginate_page blog_route True S 10 L) [0..<L]"
  have run: "getStaticPaths d (Inr posts) = Inr paths"
    by (simp add: getStaticPaths_Inr paths_def S_def L_def)
  have len: "length paths = L"
    by (simp add: paths_def)
  have "\<exists>N. 1 \<le> N \<and> N \<le> length paths \<and>
          pagination (blog_template (props_page sp)) =
            Some \<lparr>pg_currentPage = N, pg_totalPage = length paths,
                  pg_url =
                    \<lparr>current_url = Some (''/blog/'' @ string_of_nat N),
                     prev_url = (if N = 1 then None
                                 else Some (''/blog/'' @ string_of_nat (N - 1))),
                     next_url = (if N = length paths then None
                                 else Some (''/blog/'' @ string_of_nat (N + 1)))\<rparr>\<rparr>"
    if "sp \<in> set paths" for sp
  proof -
    from that obtain k where k: "k < L" and sp: "sp = paginate_page blog_route True S 10 L k"
      by (auto simp: paths_def)
    have "pagination (blog_template (props_page sp)) =
            Some \<lparr>pg_currentPage = k + 1, pg_totalPage = L,
                  pg_url =
                    \<lparr>current_url = Some (''/blog/'' @ string_of_nat (k + 1)),
                     prev_url = (if k + 1 = 1 then None
                                 else Some (''/blog/'' @ string_of_nat (k + 1 - 1))),
                     next_url = (if k + 1 = L then None
                                 else Some (''/blog/'' @ string_of_nat (k + 1 + 1)))\<rparr>\<rparr>"
      by (simp add: sp blog_template_def paginate_page_def Let_def generate_blog)
    with k show ?thesis
      unfolding len by (intro exI [of _ "k + 1"]) simp
  qed
  with run show ?thesis
    by blast
qed

theorem blog_pagination_control_witness:
  "\<exists>paths. getStaticPaths NewestFirst (Inr (sample_posts 11)) = Inr paths \<and>
     length paths = 2 \<and>
     (\<exists>N. 1 \<le> N \<and> N \<le> 2 \<and>
        pg_currentPage (the (pagination (blog_template (props_page (paths ! 1))))) = N)"
proof -
  from blog_pagination_control [of NewestFirst "sample_posts 11"] obtain paths where
    run: "getStaticPaths NewestFirst (Inr (sample_posts 11)) = Inr paths" and
    each: "\<forall>sp\<in>set paths.
        \<exists>N. 1 \<le> N \<and> N \<le> length paths \<and>
          pagination (blog_template (props_page sp)) =
            Some \<lparr>pg_currentPage = N, pg_totalPage = length paths,
                  pg_url =
                    \<lparr>current_url = Some (''/blog/'' @ string_of_nat N),
                     prev_url = (if N = 1 then None
                                 else Some (''/blog/'' @ string_of_nat (N - 1))),
                     next_url = (if N = length paths then None
                                 else Some (''/blog/'' @ string_of_nat (N + 1)))\<rparr>\<rparr>"
    by blast
  have two: "length paths = 2"
    using run by (auto simp: getStaticPaths_Inr sample_posts_def)
  then have "paths ! 1 \<in> set paths"
    by simp
  with each obtain N where "1 \<le> N" "N \<le> length paths"
    "pg_currentPage (the (pagination (blog_template (props_page (paths ! 1))))) = N"
    by fastforce
  with run two show ?thesis
    by (intro exI [of _ paths]) auto
qed

end
